theory Spec2Isabelle
  imports Main "HOL-Library.AList"
begin

section \<open>The toast notification manager (use-toast)\<close>

text \<open>
  A shallow embedding of the toast store of the InternetClock repository: the id
  generator, the timer registry, the reducer, \<open>dispatch\<close> and the \<open>toast\<close> facade.
  The module keeps its state in module-scoped variables (\<open>count\<close>, \<open>toastTimeouts\<close>,
  \<open>memoryState\<close>, \<open>listeners\<close>); the model passes them explicitly in one record,
  together with the host's table of pending \<open>setTimeout\<close> callbacks.

  Conventions: an optional property (\<open>title?: ...\<close>) is an \<open>option\<close>, with \<open>None\<close>
  for \<open>undefined\<close>; \<open>number\<close> durations are \<open>int\<close> milliseconds (the code only
  compares them with \<open>0\<close> and hands them to \<open>setTimeout\<close>); opaque values
  (\<open>React.ReactNode\<close>, \<open>ToastActionElement\<close>, the remaining \<open>ToastProps\<close>) are of a
  type parameter \<open>'v\<close>. The fields \<open>id\<close> and \<open>open\<close> of the source are written
  \<open>id'\<close> and \<open>open'\<close>.
\<close>

subsection \<open>Constants\<close>

definition TOAST_LIMIT :: nat where
  "TOAST_LIMIT = 5"

definition TOAST_REMOVE_DELAY :: int where
  "TOAST_REMOVE_DELAY = 5000"

text \<open>\<open>Number.MAX_SAFE_INTEGER\<close> is \<open>2^53 - 1\<close>.\<close>

definition MAX_SAFE_INTEGER :: nat where
  "MAX_SAFE_INTEGER = 9007199254740991"

subsection \<open>Data\<close>

text \<open>
  \<open>onOpenChange\<close> is a callback. The facade installs the closure
  \<open>(open) => { if (!open) dismiss() }\<close>, which captures the toast's id; any other
  callback is opaque.
\<close>

datatype 'v handler = Dismiss_when_closed string | Opaque_handler 'v

text \<open>
  \<open>ToasterToast = ToastProps & { id; title?; description?; action?; duration? }\<close>.
  \<open>ToastProps\<close> is declared outside the module; the code touches its \<open>open\<close> and
  \<open>onOpenChange\<close> properties, every other property is kept in \<open>props\<close> by name.
\<close>

record 'v ToasterToast =
  id' :: string
  title :: "'v option"
  description :: "'v option"
  action :: "'v option"
  duration :: "int option"
  open' :: "bool option"
  onOpenChange :: "'v handler option"
  props :: "string \<rightharpoonup> 'v"

text \<open>
  \<open>Partial<ToasterToast> & { id: string }\<close>: every property but \<open>id\<close> may be absent
  (\<open>None\<close>) or present with a value (\<open>Some v\<close>, where \<open>v\<close> may itself be \<open>undefined\<close>).
\<close>

record 'v PartialToast =
  p_id :: string
  p_title :: "'v option option"
  p_description :: "'v option option"
  p_action :: "'v option option"
  p_duration :: "int option option"
  p_open :: "bool option option"
  p_onOpenChange :: "'v handler option option"
  p_props :: "string \<rightharpoonup> 'v"

datatype 'v Action =
    ADD_TOAST "'v ToasterToast"
  | UPDATE_TOAST "'v PartialToast"
  | DISMISS_TOAST "string option"
  | REMOVE_TOAST "string option"
  | CLEAR_ALL_TOASTS

record 'v State =
  toasts :: "'v ToasterToast list"

text \<open>
  The module-scoped variables and the host's timers. \<open>toastTimeouts\<close> is the
  \<open>Map<string, timeout>\<close> in insertion order; \<open>pending\<close> is the host's table of armed
  timeouts: a handle maps to the delay it was armed with and the toast id its callback
  captured (every callback armed by this module is the one of \<open>addToRemoveQueue\<close>).
  \<open>next_handle\<close> is the handle the next \<open>setTimeout\<close> returns. \<open>listeners\<close> are the
  subscribed callbacks, by identity; \<open>delivered\<close> logs each call of a listener.
\<close>

record 'v world =
  count :: nat
  toastTimeouts :: "(string \<times> nat) list"
  pending :: "nat \<rightharpoonup> (int \<times> string)"
  next_handle :: nat
  memoryState :: "'v State"
  listeners :: "nat list"
  delivered :: "(nat \<times> 'v State) list"

subsection \<open>Id generation\<close>

definition digit_char :: "nat \<Rightarrow> char" where
  "digit_char d = ''0123456789'' ! d"

text \<open>\<open>Number.prototype.toString\<close> on a non-negative integer below \<open>10^21\<close>: its decimal digits.\<close>

fun toString :: "nat \<Rightarrow> string" where
  "toString n =
     (if n < 10 then [digit_char n] else toString (n div 10) @ [digit_char (n mod 10)])"

declare toString.simps [simp del]

definition genId :: "'v world \<Rightarrow> string \<times> 'v world" where
  "genId w =
     (let c = (count w + 1) mod MAX_SAFE_INTEGER
      in (toString c, w\<lparr>count := c\<rparr>))"

text \<open>\<open>n\<close> calls of \<open>genId\<close> in a row; the ids in the order they were returned.\<close>

fun genIds :: "nat \<Rightarrow> 'v world \<Rightarrow> string list \<times> 'v world" where
  "genIds 0 w = ([], w)"
| "genIds (Suc n) w =
     (let (i, w1) = genId w; (is, w2) = genIds n w1 in (i # is, w2))"

subsection \<open>Host timers\<close>

definition setTimeout :: "string \<Rightarrow> int \<Rightarrow> 'v world \<Rightarrow> nat \<times> 'v world" where
  "setTimeout toastId delay w =
     (next_handle w,
      w\<lparr>pending := (pending w)(next_handle w \<mapsto> (delay, toastId)),
        next_handle := next_handle w + 1\<rparr>)"

definition clearTimeout :: "nat \<Rightarrow> 'v world \<Rightarrow> 'v world" where
  "clearTimeout h w = w\<lparr>pending := (pending w)(h := None)\<rparr>"

subsection \<open>Timer registry\<close>

definition addToRemoveQueue :: "string \<Rightarrow> int option \<Rightarrow> 'v world \<Rightarrow> 'v world" where
  "addToRemoveQueue toastId dur w =
     (let w1 = (case map_of (toastTimeouts w) toastId of
                  Some old \<Rightarrow> clearTimeout old w
                | None \<Rightarrow> w);
          delay = (case dur of Some d \<Rightarrow> d | None \<Rightarrow> TOAST_REMOVE_DELAY);
          (timeout, w2) = setTimeout toastId delay w1
      in w2\<lparr>toastTimeouts := AList.update toastId timeout (toastTimeouts w2)\<rparr>)"

text \<open>\<open>if (timeout)\<close>: a handle is truthy unless it is \<open>0\<close>.\<close>

definition removeFromRemoveQueue :: "string \<Rightarrow> 'v world \<Rightarrow> 'v world" where
  "removeFromRemoveQueue toastId w =
     (case map_of (toastTimeouts w) toastId of
        Some timeout \<Rightarrow>
          if timeout \<noteq> 0
          then (clearTimeout timeout w)\<lparr>toastTimeouts := AList.delete toastId (toastTimeouts w)\<rparr>
          else w
      | None \<Rightarrow> w)"

subsection \<open>Reducer\<close>

text \<open>\<open>{ ...t, ...action.toast }\<close>: a property present in the partial toast wins.\<close>

definition spread :: "'v ToasterToast \<Rightarrow> 'v PartialToast \<Rightarrow> 'v ToasterToast" where
  "spread t p =
     \<lparr> id' = p_id p,
       title = (case p_title p of Some v \<Rightarrow> v | None \<Rightarrow> title t),
       description = (case p_description p of Some v \<Rightarrow> v | None \<Rightarrow> description t),
       action = (case p_action p of Some v \<Rightarrow> v | None \<Rightarrow> action t),
       duration = (case p_duration p of Some v \<Rightarrow> v | None \<Rightarrow> duration t),
       open' = (case p_open p of Some v \<Rightarrow> v | None \<Rightarrow> open' t),
       onOpenChange = (case p_onOpenChange p of Some v \<Rightarrow> v | None \<Rightarrow> onOpenChange t),
       props = props t ++ p_props p \<rparr>"

text \<open>\<open>if (toastId)\<close>: \<open>undefined\<close> and the empty string are falsy.\<close>

fun truthy :: "string option \<Rightarrow> bool" where
  "truthy None = False"
| "truthy (Some s) = (s \<noteq> [])"

text \<open>
  The reducer reads and writes the timer registry (in \<open>DISMISS_TOAST\<close> and
  \<open>CLEAR_ALL_TOASTS\<close>), so it takes the module state and returns it with the next
  toast state.
\<close>

fun reducer :: "'v State \<Rightarrow> 'v Action \<Rightarrow> 'v world \<Rightarrow> 'v State \<times> 'v world" where
  "reducer state (ADD_TOAST t) w =
     (state\<lparr>toasts := take TOAST_LIMIT (t # toasts state)\<rparr>, w)"
| "reducer state (UPDATE_TOAST p) w =
     (state\<lparr>toasts := map (\<lambda>t. if id' t = p_id p then spread t p else t) (toasts state)\<rparr>, w)"
| "reducer state (DISMISS_TOAST toastId) w =
     (let w1 = (if truthy toastId
                then addToRemoveQueue (the toastId) None w
                else fold (\<lambda>toast. addToRemoveQueue (id' toast) (duration toast)) (toasts state) w)
      in (state\<lparr>toasts :=
                  map (\<lambda>t. if Some (id' t) = toastId \<or> toastId = None
                            then t\<lparr>open' := Some False\<rparr> else t) (toasts state)\<rparr>,
          w1))"
| "reducer state (REMOVE_TOAST toastId) w =
     (if toastId = None then (state\<lparr>toasts := []\<rparr>, w)
      else (state\<lparr>toasts := filter (\<lambda>t. Some (id' t) \<noteq> toastId) (toasts state)\<rparr>, w))"
| "reducer state CLEAR_ALL_TOASTS w =
     (let w1 = fold (\<lambda>(k, timeout). clearTimeout timeout) (toastTimeouts w) w
      in (state\<lparr>toasts := []\<rparr>, w1\<lparr>toastTimeouts := []\<rparr>))"

subsection \<open>Dispatch\<close>

definition dispatch :: "'v Action \<Rightarrow> 'v world \<Rightarrow> 'v world" where
  "dispatch a w =
     (let (s, w1) = reducer (memoryState w) a w;
          w2 = w1\<lparr>memoryState := s\<rparr>
      in w2\<lparr>delivered := delivered w2 @ map (\<lambda>l. (l, memoryState w2)) (listeners w2)\<rparr>)"

text \<open>A sequence of dispatched actions, in order.\<close>

definition dispatch_all :: "'v Action list \<Rightarrow> 'v world \<Rightarrow> 'v world" where
  "dispatch_all as w = fold dispatch as w"

text \<open>
  An armed timeout fires: the host drops it from its table and runs the callback of
  \<open>addToRemoveQueue\<close>. A handle that is not armed does nothing.
\<close>

definition fire :: "nat \<Rightarrow> 'v world \<Rightarrow> 'v world" where
  "fire h w =
     (case pending w h of
        None \<Rightarrow> w
      | Some (delay, toastId) \<Rightarrow>
          dispatch (REMOVE_TOAST (Some toastId))
            (w\<lparr>pending := (pending w)(h := None),
               toastTimeouts := AList.delete toastId (toastTimeouts w)\<rparr>))"

subsection \<open>Facade\<close>

text \<open>
  \<open>toast({ duration, ...props })\<close>. The argument has the type \<open>Omit<ToasterToast, "id">\<close>;
  it is given here as a toast whose \<open>id'\<close> is overwritten, as the spread
  \<open>{ ...props, id, duration, open: true, onOpenChange }\<close> does. The result is the new id
  (the handle's \<open>dismiss\<close> and \<open>update\<close> are the functions below, at that id).
\<close>

definition toast :: "'v ToasterToast \<Rightarrow> 'v world \<Rightarrow> string \<times> 'v world" where
  "toast p w =
     (let (i, w1) = genId w;
          w2 = dispatch (ADD_TOAST (p\<lparr>id' := i, duration := duration p, open' := Some True,
                                      onOpenChange := Some (Dismiss_when_closed i)\<rparr>)) w1;
          w3 = (if duration p \<noteq> Some 0 then addToRemoveQueue i (duration p) w2 else w2)
      in (i, w3))"

text \<open>The \<open>dismiss\<close> and \<open>update\<close> closures of the handle that \<open>toast\<close> returns.\<close>

definition toast_dismiss :: "string \<Rightarrow> 'v world \<Rightarrow> 'v world" where
  "toast_dismiss i w = dispatch (DISMISS_TOAST (Some i)) (removeFromRemoveQueue i w)"

definition toast_update :: "string \<Rightarrow> 'v PartialToast \<Rightarrow> 'v world \<Rightarrow> 'v world" where
  "toast_update i p w = dispatch (UPDATE_TOAST (p\<lparr>p_id := i\<rparr>)) w"

text \<open>\<open>useToast().dismiss(toastId?)\<close> and \<open>useToast().clearAll()\<close>.\<close>

definition dismiss :: "string option \<Rightarrow> 'v world \<Rightarrow> 'v world" where
  "dismiss toastId w =
     dispatch (DISMISS_TOAST toastId)
       (if truthy toastId then removeFromRemoveQueue (the toastId) w else w)"

definition clearAll :: "'v world \<Rightarrow> 'v world" where
  "clearAll w = dispatch CLEAR_ALL_TOASTS w"

text \<open>The module as loaded: nothing generated, armed, stored or subscribed.\<close>

definition initial :: "'v world" where
  "initial =
     \<lparr> count = 0, toastTimeouts = [], pending = Map.empty, next_handle = 1,
       memoryState = \<lparr> toasts = [] \<rparr>, listeners = [], delivered = [] \<rparr>"

text \<open>Sample content: the object \<open>{}\<close> with no property set, and the partial toast \<open>{ id }\<close>.\<close>

definition blank :: "'v ToasterToast" where
  "blank = \<lparr> id' = [], title = None, description = None, action = None, duration = None,
             open' = None, onOpenChange = None, props = Map.empty \<rparr>"

definition only_id :: "string \<Rightarrow> 'v PartialToast" where
  "only_id i = \<lparr> p_id = i, p_title = None, p_description = None, p_action = None,
                 p_duration = None, p_open = None, p_onOpenChange = None, p_props = Map.empty \<rparr>"

subsection \<open>Toast objects and their identity\<close>

text \<open>
  \<open>state.toasts\<close> is an array of references to toast objects. To tell the same object from
  an equal copy, the toast list is also given as a list of references into a store of
  objects: \<open>objects\<close> holds the object at each address, and the addresses below
  \<open>next_ref\<close> are the ones in use.
\<close>

record 'v heap =
  objects :: "nat \<Rightarrow> 'v ToasterToast"
  next_ref :: nat

text \<open>An object literal (\<open>{ ...t, ...action.toast }\<close>, \<open>{ ...t, open: false }\<close>) creates an object.\<close>

definition alloc :: "'v ToasterToast \<Rightarrow> 'v heap \<Rightarrow> nat \<times> 'v heap" where
  "alloc t h = (next_ref h, h\<lparr>objects := (objects h)(next_ref h := t), next_ref := next_ref h + 1\<rparr>)"

text \<open>
  \<open>state.toasts.map((t) => c(t) ? { ... } : t)\<close>: where the condition holds the new array
  gets the reference of a new object, elsewhere the reference it was given.
\<close>

fun map_ref ::
  "('v ToasterToast \<Rightarrow> bool) \<Rightarrow> ('v ToasterToast \<Rightarrow> 'v ToasterToast) \<Rightarrow>
   nat list \<Rightarrow> 'v heap \<Rightarrow> nat list \<times> 'v heap" where
  "map_ref c g [] h = ([], h)"
| "map_ref c g (r # rs) h =
     (if c (objects h r)
      then (let (r', h1) = alloc (g (objects h r)) h;
                (rs', h2) = map_ref c g rs h1
            in (r' # rs', h2))
      else (let (rs', h2) = map_ref c g rs h in (r # rs', h2)))"

text \<open>
  The actions, with the toast of \<open>ADD_TOAST\<close> as the reference of the object the caller
  built.
\<close>

datatype 'v Action_ref =
    ADD_ref nat
  | UPDATE_ref "'v PartialToast"
  | DISMISS_ref "string option"
  | REMOVE_ref "string option"
  | CLEAR_ALL_ref

text \<open>
  The toast list that the reducer returns, as references: \<open>[action.toast, ...state.toasts]\<close>,
  \<open>slice\<close> and \<open>filter\<close> keep the references of their elements, the two \<open>map\<close> calls
  are as above. (The timers of the reducer do not depend on the identity of the toasts;
  they are in \<open>reducer\<close>.)
\<close>

fun reducer_ref :: "nat list \<Rightarrow> 'v Action_ref \<Rightarrow> 'v heap \<Rightarrow> nat list \<times> 'v heap" where
  "reducer_ref refs (ADD_ref r) h = (take TOAST_LIMIT (r # refs), h)"
| "reducer_ref refs (UPDATE_ref p) h =
     map_ref (\<lambda>t. id' t = p_id p) (\<lambda>t. spread t p) refs h"
| "reducer_ref refs (DISMISS_ref toastId) h =
     map_ref (\<lambda>t. Some (id' t) = toastId \<or> toastId = None) (\<lambda>t. t\<lparr>open' := Some False\<rparr>) refs h"
| "reducer_ref refs (REMOVE_ref toastId) h =
     (if toastId = None then ([], h)
      else (filter (\<lambda>r. Some (id' (objects h r)) \<noteq> toastId) refs, h))"
| "reducer_ref refs CLEAR_ALL_ref h = ([], h)"

text \<open>The action an action on references stands for.\<close>

fun action_of :: "'v heap \<Rightarrow> 'v Action_ref \<Rightarrow> 'v Action" where
  "action_of h (ADD_ref r) = ADD_TOAST (objects h r)"
| "action_of h (UPDATE_ref p) = UPDATE_TOAST p"
| "action_of h (DISMISS_ref i) = DISMISS_TOAST i"
| "action_of h (REMOVE_ref i) = REMOVE_TOAST i"
| "action_of h CLEAR_ALL_ref = CLEAR_ALL_TOASTS"

subsection \<open>Properties of the module state used below\<close>

text \<open>
  Every handle in the registry is one the host has issued (the host issues
  \<open>next_handle\<close> next): so it is on the freshly loaded module, and every operation keeps
  it so (\<open>registry_ok_initial\<close>, \<open>registry_ok_dispatch\<close> and the lemmas after them).
\<close>

definition registry_ok :: "'v world \<Rightarrow> bool" where
  "registry_ok w = list_all (\<lambda>(k, h). h < next_handle w) (toastTimeouts w)"

text \<open>The ids of \<open>I\<close> each have a registered handle of their own whose timeout is armed for them.\<close>

definition armed_all :: "string set \<Rightarrow> 'v world \<Rightarrow> bool" where
  "armed_all I w =
     (\<forall>i\<in>I. \<exists>h. map_of (toastTimeouts w) i = Some h
                \<and> map_option snd (pending w h) = Some i
                \<and> (\<forall>j. j \<noteq> i \<longrightarrow> map_of (toastTimeouts w) j \<noteq> Some h))"

text \<open>
  Two states of the module used as examples: after \<open>toast({})\<close> on the freshly loaded
  module (the toast \<open>"1"\<close>, its timer armed), and after \<open>toast({ duration: 0 })\<close> on top
  of that (the toasts \<open>"2"\<close> and \<open>"1"\<close>).
\<close>

abbreviation one_toast :: "unit world" where
  "one_toast \<equiv> snd (toast blank initial)"

abbreviation two_toasts :: "unit world" where
  "two_toasts \<equiv> snd (toast (blank\<lparr>duration := Some 0\<rparr>) one_toast)"


section \<open>Properties\<close>

subsection \<open>What each operation leaves alone\<close>

lemma setTimeout_frame [simp]:
  "memoryState (snd (setTimeout i d w)) = memoryState w"
  "listeners (snd (setTimeout i d w)) = listeners w"
  "delivered (snd (setTimeout i d w)) = delivered w"
  "count (snd (setTimeout i d w)) = count w"
  "toastTimeouts (snd (setTimeout i d w)) = toastTimeouts w"
  by (simp_all add: setTimeout_def)

lemma clearTimeout_frame [simp]:
  "memoryState (clearTimeout h w) = memoryState w"
  "listeners (clearTimeout h w) = listeners w"
  "delivered (clearTimeout h w) = delivered w"
  "count (clearTimeout h w) = count w"
  "toastTimeouts (clearTimeout h w) = toastTimeouts w"
  "next_handle (clearTimeout h w) = next_handle w"
  by (simp_all add: clearTimeout_def)

lemma addToRemoveQueue_frame [simp]:
  "memoryState (addToRemoveQueue i d w) = memoryState w"
  "listeners (addToRemoveQueue i d w) = listeners w"
  "delivered (addToRemoveQueue i d w) = delivered w"
  "count (addToRemoveQueue i d w) = count w"
  by (simp_all add: addToRemoveQueue_def setTimeout_def clearTimeout_def Let_def
      split: option.splits)

lemma fold_addToRemoveQueue_frame [simp]:
  "memoryState (fold (\<lambda>t. addToRemoveQueue (f t) (g t)) ts w) = memoryState w"
  "listeners (fold (\<lambda>t. addToRemoveQueue (f t) (g t)) ts w) = listeners w"
  "delivered (fold (\<lambda>t. addToRemoveQueue (f t) (g t)) ts w) = delivered w"
  "count (fold (\<lambda>t. addToRemoveQueue (f t) (g t)) ts w) = count w"
  by (induction ts arbitrary: w) simp_all

lemma fold_clearTimeout_frame [simp]:
  "memoryState (fold (\<lambda>(k, h). clearTimeout h) al w) = memoryState w"
  "listeners (fold (\<lambda>(k, h). clearTimeout h) al w) = listeners w"
  "delivered (fold (\<lambda>(k, h). clearTimeout h) al w) = delivered w"
  "count (fold (\<lambda>(k, h). clearTimeout h) al w) = count w"
  "next_handle (fold (\<lambda>(k, h). clearTimeout h) al w) = next_handle w"
  by (induction al arbitrary: w) (simp_all add: case_prod_beta)

text \<open>What \<open>addToRemoveQueue\<close> writes: the registry entry and the armed timeout.\<close>

lemma addToRemoveQueue_registry:
  "toastTimeouts (addToRemoveQueue i d w) = AList.update i (next_handle w) (toastTimeouts w)"
  "pending (addToRemoveQueue i d w) (next_handle w) =
     Some (case d of Some x \<Rightarrow> x | None \<Rightarrow> TOAST_REMOVE_DELAY, i)"
  by (simp_all add: addToRemoveQueue_def setTimeout_def clearTimeout_def Let_def
      split: option.splits)

subsection \<open>The two results of the reducer\<close>

lemma reducer_state:
  "fst (reducer s (ADD_TOAST t) w) = s\<lparr>toasts := take TOAST_LIMIT (t # toasts s)\<rparr>"
  "fst (reducer s (UPDATE_TOAST p) w) =
     s\<lparr>toasts := map (\<lambda>t. if id' t = p_id p then spread t p else t) (toasts s)\<rparr>"
  "fst (reducer s (DISMISS_TOAST i) w) =
     s\<lparr>toasts := map (\<lambda>t. if Some (id' t) = i \<or> i = None
                          then t\<lparr>open' := Some False\<rparr> else t) (toasts s)\<rparr>"
  "fst (reducer s (REMOVE_TOAST i) w) =
     (if i = None then s\<lparr>toasts := []\<rparr>
      else s\<lparr>toasts := filter (\<lambda>t. Some (id' t) \<noteq> i) (toasts s)\<rparr>)"
  "fst (reducer s CLEAR_ALL_TOASTS w) = s\<lparr>toasts := []\<rparr>"
  by (simp_all add: Let_def)

lemma reducer_world_frame [simp]:
  "memoryState (snd (reducer s a w)) = memoryState w"
  "listeners (snd (reducer s a w)) = listeners w"
  "delivered (snd (reducer s a w)) = delivered w"
  "count (snd (reducer s a w)) = count w"
  by (cases a; simp add: Let_def)+

lemma dispatch_memoryState: "memoryState (dispatch a w) = fst (reducer (memoryState w) a w)"
  by (simp add: dispatch_def Let_def case_prod_beta)

lemma dispatch_timers:
  "toastTimeouts (dispatch a w) = toastTimeouts (snd (reducer (memoryState w) a w))"
  "pending (dispatch a w) = pending (snd (reducer (memoryState w) a w))"
  "next_handle (dispatch a w) = next_handle (snd (reducer (memoryState w) a w))"
  "count (dispatch a w) = count w"
  by (simp_all add: dispatch_def Let_def case_prod_beta)

lemma dispatch_all_Cons: "dispatch_all (a # as) w = dispatch_all as (dispatch a w)"
  by (simp add: dispatch_all_def)

subsection \<open>The timer registry\<close>

lemma pending_addToRemoveQueue:
  "pending (addToRemoveQueue i d w) =
     (case map_of (toastTimeouts w) i of
        Some old \<Rightarrow> (pending w)(old := None)
      | None \<Rightarrow> pending w)
     (next_handle w \<mapsto> (case d of Some x \<Rightarrow> x | None \<Rightarrow> TOAST_REMOVE_DELAY, i))"
  by (simp add: addToRemoveQueue_def setTimeout_def clearTimeout_def Let_def split: option.splits)

lemma next_handle_addToRemoveQueue:
  "next_handle (addToRemoveQueue i d w) = next_handle w + 1"
  by (simp add: addToRemoveQueue_def setTimeout_def clearTimeout_def Let_def split: option.splits)

lemma list_all_update:
  "P (k, v) \<Longrightarrow> list_all P al \<Longrightarrow> list_all P (AList.update k v al)"
  by (induction al) auto

lemma registry_ok_lookup:
  "registry_ok w \<Longrightarrow> map_of (toastTimeouts w) k = Some h \<Longrightarrow> h < next_handle w"
  by (auto simp: registry_ok_def list_all_iff dest: map_of_SomeD)

lemma registry_ok_addToRemoveQueue:
  assumes "registry_ok w"
  shows "registry_ok (addToRemoveQueue i d w)"
proof -
  have "list_all (\<lambda>(k, h). h < next_handle w + 1) (toastTimeouts w)"
    using assms by (auto simp: registry_ok_def list_all_iff)
  then show ?thesis
    by (simp add: registry_ok_def addToRemoveQueue_registry next_handle_addToRemoveQueue
        list_all_update)
qed

lemma armed_all_step:
  assumes ok: "registry_ok w" and ar: "armed_all I w"
  shows "armed_all (insert j I) (addToRemoveQueue j d w)"
  unfolding armed_all_def
proof
  fix i assume iI: "i \<in> insert j I"
  let ?w = "addToRemoveQueue j d w"
  let ?n = "next_handle w"
  have reg: "map_of (toastTimeouts ?w) = (map_of (toastTimeouts w))(j \<mapsto> ?n)"
    by (simp add: addToRemoveQueue_registry update_conv')
  show "\<exists>h. map_of (toastTimeouts ?w) i = Some h
        \<and> map_option snd (pending ?w h) = Some i
        \<and> (\<forall>k. k \<noteq> i \<longrightarrow> map_of (toastTimeouts ?w) k \<noteq> Some h)"
  proof (cases "i = j")
    case True
    have "\<forall>k. k \<noteq> j \<longrightarrow> map_of (toastTimeouts ?w) k \<noteq> Some ?n"
      using registry_ok_lookup [OF ok] by (fastforce simp: reg)
    with True show ?thesis
      by (intro exI [of _ ?n]) (simp add: reg pending_addToRemoveQueue)
  next
    case False
    with iI have "i \<in> I" by simp
    with ar obtain h where h: "map_of (toastTimeouts w) i = Some h"
      "map_option snd (pending w h) = Some i"
      "\<forall>k. k \<noteq> i \<longrightarrow> map_of (toastTimeouts w) k \<noteq> Some h"
      unfolding armed_all_def by blast
    from registry_ok_lookup [OF ok h(1)] have hn: "h \<noteq> ?n" by simp
    from h(3) False have old: "map_of (toastTimeouts w) j \<noteq> Some h" by metis
    have "map_option snd (pending ?w h) = Some i"
      using h(2) hn old by (auto simp: pending_addToRemoveQueue split: option.splits)
    moreover have "\<forall>k. k \<noteq> i \<longrightarrow> map_of (toastTimeouts ?w) k \<noteq> Some h"
      using h(3) hn by (simp add: reg)
    moreover have "map_of (toastTimeouts ?w) i = Some h"
      using h(1) False by (simp add: reg)
    ultimately show ?thesis by blast
  qed
qed

lemma armed_all_fold:
  "registry_ok w \<Longrightarrow> armed_all I w \<Longrightarrow>
   registry_ok (fold (\<lambda>t. addToRemoveQueue (f t) (g t)) ts w)
   \<and> armed_all (I \<union> f ` set ts) (fold (\<lambda>t. addToRemoveQueue (f t) (g t)) ts w)"
proof (induction ts arbitrary: w I)
  case Nil
  then show ?case by simp
next
  case (Cons t ts)
  have ok: "registry_ok (addToRemoveQueue (f t) (g t) w)"
    using Cons.prems(1) by (rule registry_ok_addToRemoveQueue)
  have ar: "armed_all (insert (f t) I) (addToRemoveQueue (f t) (g t) w)"
    using Cons.prems by (rule armed_all_step)
  from Cons.IH [OF ok ar] show ?case by simp
qed




lemma reducer_dismiss_all:
  assumes "\<not> truthy k" and "registry_ok w"
  shows "registry_ok (snd (reducer s (DISMISS_TOAST k) w))"
    and "armed_all (id' ` set (toasts s)) (snd (reducer s (DISMISS_TOAST k) w))"
proof -
  have "armed_all {} w" by (simp add: armed_all_def)
  from armed_all_fold [OF assms(2) this, of id' duration "toasts s"] assms(1)
  show "registry_ok (snd (reducer s (DISMISS_TOAST k) w))"
    and "armed_all (id' ` set (toasts s)) (snd (reducer s (DISMISS_TOAST k) w))"
    by (simp_all add: Let_def)
qed


text \<open>The freshly loaded module has a registry of issued handles, and every operation keeps it.\<close>

lemma registry_ok_cong:
  "toastTimeouts w' = toastTimeouts w \<Longrightarrow> next_handle w' = next_handle w \<Longrightarrow>
   registry_ok w' = registry_ok w"
  by (simp add: registry_ok_def)

lemma registry_ok_initial: "registry_ok initial"
  by (simp add: registry_ok_def initial_def)

lemma registry_ok_reducer: "registry_ok w \<Longrightarrow> registry_ok (snd (reducer s a w))"
proof (cases a)
  case (DISMISS_TOAST k)
  assume ok: "registry_ok w"
  show ?thesis
  proof (cases "truthy k")
    case True
    with ok DISMISS_TOAST show ?thesis
      by (simp add: Let_def registry_ok_addToRemoveQueue)
  next
    case False
    from reducer_dismiss_all(1) [OF False ok] DISMISS_TOAST show ?thesis
      by (simp only:)
  qed
next
  case CLEAR_ALL_TOASTS
  then show ?thesis by (simp add: registry_ok_def Let_def)
qed simp_all

lemma registry_ok_dispatch: "registry_ok w \<Longrightarrow> registry_ok (dispatch a w)"
  using registry_ok_reducer [of w "memoryState w" a]
  by (simp add: registry_ok_def dispatch_timers)

lemma list_all_delete: "list_all P al \<Longrightarrow> list_all P (AList.delete k al)"
  by (simp add: AList.delete_eq list_all_iff)

lemma registry_ok_removeFromRemoveQueue:
  "registry_ok w \<Longrightarrow> registry_ok (removeFromRemoveQueue i w)"
  by (simp add: registry_ok_def removeFromRemoveQueue_def list_all_delete split: option.splits)

lemma registry_ok_fire: "registry_ok w \<Longrightarrow> registry_ok (fire h w)"
  by (auto simp: fire_def registry_ok_def list_all_delete intro!: registry_ok_dispatch [unfolded registry_ok_def]
      split: option.splits)

lemma registry_ok_toast: "registry_ok w \<Longrightarrow> registry_ok (snd (toast p w))"
proof -
  assume "registry_ok w"
  then have "registry_ok (snd (genId w))"
    by (simp add: registry_ok_def genId_def Let_def)
  then have "registry_ok (dispatch (ADD_TOAST t) (snd (genId w)))" for t
    by (rule registry_ok_dispatch)
  then show ?thesis
    by (simp add: toast_def Let_def case_prod_beta registry_ok_addToRemoveQueue)
qed

lemma registry_ok_dismiss:
  "registry_ok w \<Longrightarrow> registry_ok (toast_dismiss i w)"
  "registry_ok w \<Longrightarrow> registry_ok (dismiss k w)"
  by (simp_all add: toast_dismiss_def dismiss_def registry_ok_dispatch
      registry_ok_removeFromRemoveQueue)

subsection \<open>Objects and references\<close>

text \<open>
  The reducer on references writes no object that was there, and read through the store
  its result is the toast list of \<open>reducer\<close>.
\<close>

lemma map_ref_frame:
  "next_ref h \<le> next_ref (snd (map_ref c g rs h))
   \<and> (\<forall>r<next_ref h. objects (snd (map_ref c g rs h)) r = objects h r)"
proof (induction rs arbitrary: h)
  case Nil
  show ?case by simp
next
  case (Cons r rs)
  show ?case
  proof (cases "c (objects h r)")
    case True
    let ?h1 = "snd (alloc (g (objects h r)) h)"
    have s: "snd (map_ref c g (r # rs) h) = snd (map_ref c g rs ?h1)"
      using True by (simp add: case_prod_beta Let_def)
    have n1: "next_ref ?h1 = next_ref h + 1"
      and o1: "\<forall>x<next_ref h. objects ?h1 x = objects h x"
      by (simp_all add: alloc_def)
    from Cons.IH [of ?h1] n1 o1 show ?thesis
      unfolding s by (metis add_leD1 trans_less_add1)
  next
    case False
    then have s: "snd (map_ref c g (r # rs) h) = snd (map_ref c g rs h)"
      by (simp add: case_prod_beta Let_def)
    from Cons.IH [of h] show ?thesis unfolding s .
  qed
qed

lemma reducer_ref_frame:
  "next_ref h \<le> next_ref (snd (reducer_ref refs a h))
   \<and> (\<forall>r<next_ref h. objects (snd (reducer_ref refs a h)) r = objects h r)"
  by (cases a) (simp_all add: map_ref_frame)

lemma map_ref_rel:
  assumes "\<forall>r\<in>set rs. r < next_ref h"
  shows "list_all2
           (\<lambda>r r'. if c (objects h r)
                    then next_ref h \<le> r' \<and> objects (snd (map_ref c g rs h)) r' = g (objects h r)
                    else r' = r)
           rs (fst (map_ref c g rs h))"
  using assms
proof (induction rs arbitrary: h)
  case Nil
  show ?case by simp
next
  case (Cons r rs)
  show ?case
  proof (cases "c (objects h r)")
    case True
    let ?h1 = "snd (alloc (g (objects h r)) h)"
    let ?h2 = "snd (map_ref c g rs ?h1)"
    have f: "fst (map_ref c g (r # rs) h) = next_ref h # fst (map_ref c g rs ?h1)"
      and s: "snd (map_ref c g (r # rs) h) = ?h2"
      using True by (simp_all add: case_prod_beta Let_def alloc_def)
    have n1: "next_ref ?h1 = next_ref h + 1"
      and o1: "\<forall>x<next_ref h. objects ?h1 x = objects h x"
      and new: "objects ?h1 (next_ref h) = g (objects h r)"
      by (simp_all add: alloc_def)
    have v1: "\<forall>x\<in>set rs. x < next_ref ?h1"
      using Cons.prems n1 by auto
    have hd: "objects ?h2 (next_ref h) = g (objects h r)"
      using map_ref_frame [of ?h1 c g rs] n1 new by simp
    have "list_all2
           (\<lambda>x x'. if c (objects ?h1 x)
                    then next_ref ?h1 \<le> x' \<and> objects ?h2 x' = g (objects ?h1 x)
                    else x' = x)
           rs (fst (map_ref c g rs ?h1))"
      by (rule Cons.IH [OF v1])
    then have tl: "list_all2
           (\<lambda>x x'. if c (objects h x)
                    then next_ref h \<le> x' \<and> objects ?h2 x' = g (objects h x)
                    else x' = x)
           rs (fst (map_ref c g rs ?h1))"
    proof (rule list.rel_mono_strong)
      fix x x' assume "x \<in> set rs"
      with Cons.prems have "x < next_ref h" by simp
      with o1 have e: "objects ?h1 x = objects h x" by simp
      assume "x' \<in> set (fst (map_ref c g rs ?h1))"
      assume "if c (objects ?h1 x)
              then next_ref ?h1 \<le> x' \<and> objects ?h2 x' = g (objects ?h1 x) else x' = x"
      then show "if c (objects h x)
              then next_ref h \<le> x' \<and> objects ?h2 x' = g (objects h x) else x' = x"
        unfolding e n1 by (auto split: if_splits)
    qed
    show ?thesis
      unfolding f s using True hd tl by simp
  next
    case False
    have f: "fst (map_ref c g (r # rs) h) = r # fst (map_ref c g rs h)"
      and s: "snd (map_ref c g (r # rs) h) = snd (map_ref c g rs h)"
      using False by (simp_all add: case_prod_beta Let_def)
    have "\<forall>x\<in>set rs. x < next_ref h" using Cons.prems by simp
    from Cons.IH [OF this] False show ?thesis
      unfolding f s by simp
  qed
qed

lemma list_all2_map_eq: "list_all2 (\<lambda>x y. F y = G x) xs ys \<Longrightarrow> map F ys = map G xs"
  by (induction xs ys rule: list_all2_induct) simp_all

lemma map_ref_view:
  assumes "\<forall>r\<in>set rs. r < next_ref h"
  shows "map (objects (snd (map_ref c g rs h))) (fst (map_ref c g rs h))
         = map (\<lambda>t. if c t then g t else t) (map (objects h) rs)"
proof -
  have "list_all2 (\<lambda>r r'. objects (snd (map_ref c g rs h)) r' = (if c (objects h r) then g (objects h r) else objects h r))
          rs (fst (map_ref c g rs h))"
    using map_ref_rel [OF assms, of c g]
  proof (rule list.rel_mono_strong)
    fix x x' assume "x \<in> set rs"
    with assms have "x < next_ref h" by simp
    then have e: "objects (snd (map_ref c g rs h)) x = objects h x"
      using map_ref_frame [of h c g rs] by simp
    assume "x' \<in> set (fst (map_ref c g rs h))"
    assume "if c (objects h x)
            then next_ref h \<le> x' \<and> objects (snd (map_ref c g rs h)) x' = g (objects h x)
            else x' = x"
    then show "objects (snd (map_ref c g rs h)) x' = (if c (objects h x) then g (objects h x) else objects h x)"
      using e by (auto split: if_splits)
  qed
  then have "map (objects (snd (map_ref c g rs h))) (fst (map_ref c g rs h))
             = map (\<lambda>r. if c (objects h r) then g (objects h r) else objects h r) rs"
    by (rule list_all2_map_eq)
  then show ?thesis
    by (simp add: comp_def)
qed

lemma reducer_ref_refines:
  assumes "\<forall>r\<in>set refs. r < next_ref h"
  shows "map (objects (snd (reducer_ref refs a h))) (fst (reducer_ref refs a h))
         = toasts (fst (reducer \<lparr>toasts = map (objects h) refs\<rparr> (action_of h a) w))"
proof (cases a)
  case (ADD_ref r)
  then show ?thesis
    using take_map [of TOAST_LIMIT "objects h" "r # refs"] by simp
next
  case (UPDATE_ref p)
  then show ?thesis using map_ref_view [OF assms] by (simp add: reducer_state)
next
  case (DISMISS_ref i)
  then show ?thesis using map_ref_view [OF assms] by (simp add: reducer_state)
next
  case (REMOVE_ref i)
  then show ?thesis by (simp add: filter_map comp_def)
next
  case CLEAR_ALL_ref
  then show ?thesis by simp
qed


lemma one_toast_world:
  "one_toast =
     \<lparr> count = 1, toastTimeouts = [(''1'', 1)], pending = [1 \<mapsto> (5000, ''1'')], next_handle = 2,
       memoryState = \<lparr> toasts = [blank\<lparr>id' := ''1'', open' := Some True,
                                        onOpenChange := Some (Dismiss_when_closed ''1'')\<rparr>] \<rparr>,
       listeners = [], delivered = [] \<rparr>"
  by (simp add: toast_def genId_def dispatch_def addToRemoveQueue_def setTimeout_def
      Let_def initial_def blank_def MAX_SAFE_INTEGER_def TOAST_LIMIT_def
      TOAST_REMOVE_DELAY_def toString.simps digit_char_def)

lemma two_toasts_world:
  "toast (blank\<lparr>duration := Some 0\<rparr>) one_toast =
     (''2'',
      \<lparr> count = 2, toastTimeouts = [(''1'', 1)], pending = [1 \<mapsto> (5000, ''1'')], next_handle = 2,
        memoryState = \<lparr> toasts =
          [blank\<lparr>id' := ''2'', duration := Some 0, open' := Some True,
                 onOpenChange := Some (Dismiss_when_closed ''2'')\<rparr>,
           blank\<lparr>id' := ''1'', open' := Some True,
                 onOpenChange := Some (Dismiss_when_closed ''1'')\<rparr>] \<rparr>,
        listeners = [], delivered = [] \<rparr>)"
  unfolding one_toast_world
  by (simp add: toast_def genId_def dispatch_def Let_def blank_def MAX_SAFE_INTEGER_def
      TOAST_LIMIT_def toString.simps digit_char_def)

subsection \<open>Purity of the reducer\<close>






subsection \<open>No orphaned timers\<close>

text \<open>
  C2, as stated, fails for the full \<open>REMOVE_TOAST\<close>: after a dismiss of \<open>"1"\<close> and a
  \<open>REMOVE_TOAST\<close> with no id, the registry still holds the entry for \<open>"1"\<close>.
\<close>

theorem full_remove_keeps_registry:
  "toastTimeouts (dispatch_all [DISMISS_TOAST (Some ''1''), REMOVE_TOAST None]
                    (initial :: unit world))
     = [(''1'', 1)]"
  by (simp add: dispatch_all_def dispatch_def initial_def addToRemoveQueue_def setTimeout_def
      Let_def)

text \<open>
  C2, amended: after every sequence of dispatched actions that ends in
  \<open>CLEAR_ALL_TOASTS\<close> the timer registry is empty; a \<open>REMOVE_TOAST\<close> with no id leaves
  the registry as the actions before it left it.
\<close>

theorem clear_all_empties_registry:
  "toastTimeouts (dispatch_all (as @ [CLEAR_ALL_TOASTS]) w) = []
   \<and> toastTimeouts (dispatch_all (as @ [REMOVE_TOAST None]) w)
       = toastTimeouts (dispatch_all as w)"
  by (simp add: dispatch_all_def dispatch_timers Let_def)

subsection \<open>Capacity\<close>

lemma take_append_take: "take n (xs @ take n ys) = take n (xs @ ys)"
  by (simp add: min_def)

lemma dispatch_ADD_toasts:
  "toasts (memoryState (dispatch (ADD_TOAST t) w))
     = take TOAST_LIMIT (t # toasts (memoryState w))"
  by (simp add: dispatch_memoryState)

lemma dispatch_all_ADD_Cons:
  "toasts (memoryState (dispatch_all (map ADD_TOAST (t # ts)) w))
     = take TOAST_LIMIT (rev (t # ts) @ toasts (memoryState w))"
proof (induction ts arbitrary: t w)
  case Nil
  show ?case by (simp add: dispatch_all_def dispatch_ADD_toasts)
next
  case (Cons u ts)
  have "toasts (memoryState (dispatch_all (map ADD_TOAST (t # u # ts)) w))
        = toasts (memoryState (dispatch_all (map ADD_TOAST (u # ts)) (dispatch (ADD_TOAST t) w)))"
    by (simp only: list.map dispatch_all_Cons)
  also have "\<dots> = take TOAST_LIMIT (rev (u # ts) @ take TOAST_LIMIT (t # toasts (memoryState w)))"
    by (simp only: Cons.IH dispatch_ADD_toasts)
  also have "\<dots> = take TOAST_LIMIT (rev (u # ts) @ t # toasts (memoryState w))"
    by (rule take_append_take)
  also have "\<dots> = take TOAST_LIMIT (rev (t # u # ts) @ toasts (memoryState w))"
    by simp
  finally show ?case .
qed

lemma dispatch_all_ADD:
  assumes "length (toasts (memoryState w)) \<le> TOAST_LIMIT"
  shows "toasts (memoryState (dispatch_all (map ADD_TOAST ts) w))
     = take TOAST_LIMIT (rev ts @ toasts (memoryState w))"
proof (cases ts)
  case Nil
  with assms show ?thesis by (simp add: dispatch_all_def)
next
  case (Cons t us)
  then show ?thesis by (simp only: dispatch_all_ADD_Cons)
qed

lemma reducer_length:
  "length (toasts s) \<le> TOAST_LIMIT \<Longrightarrow> length (toasts (fst (reducer s a w))) \<le> TOAST_LIMIT"
  by (cases a) (auto simp: Let_def intro: le_trans [OF length_filter_le])

lemma dispatch_all_length:
  "length (toasts (memoryState w)) \<le> TOAST_LIMIT \<Longrightarrow>
   length (toasts (memoryState (dispatch_all as w))) \<le> TOAST_LIMIT"
proof (induction as arbitrary: w)
  case Nil
  then show ?case by (simp add: dispatch_all_def)
next
  case (Cons a as)
  have "length (toasts (memoryState (dispatch a w))) \<le> TOAST_LIMIT"
    using Cons.prems by (simp add: dispatch_memoryState reducer_length)
  from Cons.IH [OF this] show ?case by (simp only: dispatch_all_Cons)
qed

text \<open>
  C3: the capacity is 5; an \<open>ADD_TOAST\<close> takes the count to
  \<open>min capacity (previous + 1)\<close>; from a store within capacity, a sequence of
  \<open>ADD_TOAST\<close> leaves the \<open>capacity\<close> newest of the added toasts followed by the old
  ones, newest first (from the empty store: exactly the newest added ones); and no
  sequence of actions of any kind takes the store over capacity.
\<close>

theorem capacity_invariant:
  "TOAST_LIMIT = 5
   \<and> length (toasts (fst (reducer s (ADD_TOAST t) w0)))
       = min TOAST_LIMIT (length (toasts s) + 1)
   \<and> toasts (memoryState (dispatch_all (map ADD_TOAST ts) (initial :: 'v world)))
       = take TOAST_LIMIT (rev ts)
   \<and> (length (toasts (memoryState w)) \<le> TOAST_LIMIT \<longrightarrow>
        toasts (memoryState (dispatch_all (map ADD_TOAST ts) w))
          = take TOAST_LIMIT (rev ts @ toasts (memoryState w))
        \<and> length (toasts (memoryState (dispatch_all as w))) \<le> TOAST_LIMIT)"
proof -
  have "TOAST_LIMIT = 5"
    by (simp add: TOAST_LIMIT_def)
  moreover have "length (toasts (fst (reducer s (ADD_TOAST t) w0)))
       = min TOAST_LIMIT (length (toasts s) + 1)"
    by (simp add: min_def)
  moreover have "toasts (memoryState (dispatch_all (map ADD_TOAST ts) (initial :: 'v world)))
       = take TOAST_LIMIT (rev ts)"
    using dispatch_all_ADD [of "initial :: 'v world" ts] by (simp add: initial_def)
  ultimately show ?thesis
    using dispatch_all_ADD [of w ts] dispatch_all_length [of w as] by blast
qed

text \<open>
  C3 at the scenario of the specification: six toasts A..F added to the empty store
  leave F, E, D, C, B.
\<close>

theorem capacity_invariant_witness:
  "length (toasts (memoryState (initial :: unit world))) \<le> TOAST_LIMIT
   \<and> toasts (memoryState (dispatch_all
        (map ADD_TOAST [blank\<lparr>id' := ''A''\<rparr>, blank\<lparr>id' := ''B''\<rparr>, blank\<lparr>id' := ''C''\<rparr>,
                        blank\<lparr>id' := ''D''\<rparr>, blank\<lparr>id' := ''E''\<rparr>, blank\<lparr>id' := ''F''\<rparr>])
        (initial :: unit world)))
     = [blank\<lparr>id' := ''F''\<rparr>, blank\<lparr>id' := ''E''\<rparr>, blank\<lparr>id' := ''D''\<rparr>,
        blank\<lparr>id' := ''C''\<rparr>, blank\<lparr>id' := ''B''\<rparr>]
   \<and> length (toasts (memoryState (dispatch_all [CLEAR_ALL_TOASTS] (initial :: unit world))))
       \<le> TOAST_LIMIT"
  using capacity_invariant [of "\<lparr>toasts = []\<rparr>" "blank" "initial :: unit world"
      "[blank\<lparr>id' := ''A''\<rparr>, blank\<lparr>id' := ''B''\<rparr>, blank\<lparr>id' := ''C''\<rparr>,
        blank\<lparr>id' := ''D''\<rparr>, blank\<lparr>id' := ''E''\<rparr>, blank\<lparr>id' := ''F''\<rparr>]"
      "initial :: unit world" "[CLEAR_ALL_TOASTS]"]
  by (simp add: initial_def TOAST_LIMIT_def)

subsection \<open>Delay of the removal timer\<close>

text \<open>
  C4 at a toast with id \<open>"1"\<close> and a duration of 200 ms: \<open>DISMISS_TOAST\<close> with that id
  arms the timer for \<open>"1"\<close> with the default 5000 ms, not with the toast's 200 ms; the
  dismiss of all toasts on the same state arms it with 200 ms.
\<close>

theorem dismiss_one_uses_default_delay:
  "pending (snd (reducer \<lparr>toasts = [blank\<lparr>id' := ''1'', duration := Some 200\<rparr>]\<rparr>
                   (DISMISS_TOAST (Some ''1'')) (initial :: unit world))) 1
     = Some (5000, ''1'')
   \<and> map_of (toastTimeouts (snd (reducer \<lparr>toasts = [blank\<lparr>id' := ''1'', duration := Some 200\<rparr>]\<rparr>
                   (DISMISS_TOAST (Some ''1'')) (initial :: unit world)))) ''1'' = Some 1
   \<and> pending (snd (reducer \<lparr>toasts = [blank\<lparr>id' := ''1'', duration := Some 200\<rparr>]\<rparr>
                   (DISMISS_TOAST None) (initial :: unit world))) 1
     = Some (200, ''1'')"
  by (simp add: initial_def addToRemoveQueue_def setTimeout_def Let_def TOAST_REMOVE_DELAY_def)

subsection \<open>Ids that are not in the store\<close>

lemma map_absent: "i \<notin> f ` set xs \<Longrightarrow> map (\<lambda>t. if f t = i then g t else t) xs = xs"
  by (induction xs) auto

lemma filter_absent: "i \<notin> f ` set xs \<Longrightarrow> filter (\<lambda>t. f t \<noteq> i) xs = xs"
  by (induction xs) auto

text \<open>
  C6: for an id that no toast of the store has, \<open>UPDATE_TOAST\<close>, \<open>DISMISS_TOAST\<close> and
  \<open>REMOVE_TOAST\<close> with that id leave the stored state as it was (the functions are
  total: nothing is thrown).
\<close>

theorem absent_id_noop:
  assumes "i \<notin> id' ` set (toasts (memoryState w))" and "p_id p = i"
  shows "memoryState (dispatch (UPDATE_TOAST p) w) = memoryState w
       \<and> memoryState (dispatch (DISMISS_TOAST (Some i)) w) = memoryState w
       \<and> memoryState (dispatch (REMOVE_TOAST (Some i)) w) = memoryState w"
  using assms by (simp add: dispatch_memoryState reducer_state map_absent filter_absent)

text \<open>C6 at a store holding the toast \<open>"1"\<close> and the absent id \<open>"2"\<close>.\<close>

theorem absent_id_noop_witness:
  "''2'' \<notin> id' ` set (toasts (memoryState
       ((initial :: unit world)\<lparr>memoryState := \<lparr>toasts = [blank\<lparr>id' := ''1''\<rparr>]\<rparr>\<rparr>)))
   \<and> p_id ((only_id ''2'' :: unit PartialToast)\<lparr>p_title := Some (Some ())\<rparr>) = ''2''
   \<and> toasts (memoryState (dispatch (UPDATE_TOAST ((only_id ''2'')\<lparr>p_title := Some (Some ())\<rparr>))
       ((initial :: unit world)\<lparr>memoryState := \<lparr>toasts = [blank\<lparr>id' := ''1''\<rparr>]\<rparr>\<rparr>)))
     = [blank\<lparr>id' := ''1''\<rparr>]
   \<and> toasts (memoryState (dispatch (DISMISS_TOAST (Some ''2''))
       ((initial :: unit world)\<lparr>memoryState := \<lparr>toasts = [blank\<lparr>id' := ''1''\<rparr>]\<rparr>\<rparr>)))
     = [blank\<lparr>id' := ''1''\<rparr>]
   \<and> toasts (memoryState (dispatch (REMOVE_TOAST (Some ''2''))
       ((initial :: unit world)\<lparr>memoryState := \<lparr>toasts = [blank\<lparr>id' := ''1''\<rparr>]\<rparr>\<rparr>)))
     = [blank\<lparr>id' := ''1''\<rparr>]"
  using absent_id_noop [of "''2''"
      "(initial :: unit world)\<lparr>memoryState := \<lparr>toasts = [blank\<lparr>id' := ''1''\<rparr>]\<rparr>\<rparr>"
      "(only_id ''2'')\<lparr>p_title := Some (Some ())\<rparr>"]
  by (simp add: only_id_def blank_def)

text \<open>
  C10: \<open>DISMISS_TOAST\<close> with a non-empty id that no toast of the store has still
  registers a timer for that id, armed with the default delay, while the toast list
  stays as it was.
\<close>

theorem dismiss_absent_arms_timer:
  assumes "i \<noteq> []" and "i \<notin> id' ` set (toasts (memoryState w))"
  shows "map_of (toastTimeouts (dispatch (DISMISS_TOAST (Some i)) w)) i = Some (next_handle w)
       \<and> pending (dispatch (DISMISS_TOAST (Some i)) w) (next_handle w)
           = Some (TOAST_REMOVE_DELAY, i)
       \<and> toasts (memoryState (dispatch (DISMISS_TOAST (Some i)) w)) = toasts (memoryState w)"
  using assms
  by (simp add: dispatch_memoryState dispatch_timers reducer_state map_absent Let_def
      addToRemoveQueue_registry update_conv')

text \<open>C10 on the freshly loaded module, whose store is empty, at the id \<open>"7"\<close>.\<close>

theorem dismiss_absent_arms_timer_witness:
  "''7'' \<noteq> [] \<and> ''7'' \<notin> id' ` set (toasts (memoryState (initial :: unit world)))
   \<and> toastTimeouts (dispatch (DISMISS_TOAST (Some ''7'')) (initial :: unit world)) = [(''7'', 1)]
   \<and> pending (dispatch (DISMISS_TOAST (Some ''7'')) (initial :: unit world)) 1
       = Some (5000, ''7'')
   \<and> toasts (memoryState (dispatch (DISMISS_TOAST (Some ''7'')) (initial :: unit world))) = []"
  using dismiss_absent_arms_timer [of "''7''" "initial :: unit world"]
  by (simp add: initial_def dispatch_def addToRemoveQueue_def setTimeout_def Let_def
      TOAST_REMOVE_DELAY_def)

subsection \<open>Update and dismiss\<close>

text \<open>
  C7: \<open>UPDATE_TOAST\<close> with \<open>{ id, title: X }\<close> replaces every toast of that id by the
  same toast with the title \<open>X\<close> (all its other fields as before) and returns every
  other toast itself. On references: a toast of another id keeps its reference (it is
  the same object), a toast of that id gets the reference of a new object, equal to the
  old one but for the title, no object that was there is written, and the objects
  referred to are the toast list that \<open>reducer\<close> returns.
\<close>

theorem update_title_only:
  "toasts (memoryState (dispatch (UPDATE_TOAST ((only_id i)\<lparr>p_title := Some X\<rparr>)) w))
     = map (\<lambda>t. if id' t = i then t\<lparr>title := X\<rparr> else t) (toasts (memoryState w))
   \<and> ((\<forall>r\<in>set refs. r < next_ref h) \<longrightarrow>
        list_all2
          (\<lambda>r r'. if id' (objects h r) = i
                   then next_ref h \<le> r'
                        \<and> objects (snd (reducer_ref refs (UPDATE_ref ((only_id i)\<lparr>p_title := Some X\<rparr>)) h)) r'
                            = (objects h r)\<lparr>title := X\<rparr>
                   else r' = r)
          refs (fst (reducer_ref refs (UPDATE_ref ((only_id i)\<lparr>p_title := Some X\<rparr>)) h))
        \<and> (\<forall>r<next_ref h.
              objects (snd (reducer_ref refs (UPDATE_ref ((only_id i)\<lparr>p_title := Some X\<rparr>)) h)) r
                = objects h r)
        \<and> map (objects (snd (reducer_ref refs (UPDATE_ref ((only_id i)\<lparr>p_title := Some X\<rparr>)) h)))
              (fst (reducer_ref refs (UPDATE_ref ((only_id i)\<lparr>p_title := Some X\<rparr>)) h))
            = toasts (fst (reducer \<lparr>toasts = map (objects h) refs\<rparr>
                              (UPDATE_TOAST ((only_id i)\<lparr>p_title := Some X\<rparr>)) w)))"
proof -
  let ?p = "(only_id i)\<lparr>p_title := Some X\<rparr> :: 'a PartialToast"
  have sp: "spread t ?p = t\<lparr>title := X\<rparr>" if "id' t = i" for t :: "'a ToasterToast"
    using that by (simp add: spread_def only_id_def)
  have v: "toasts (memoryState (dispatch (UPDATE_TOAST ?p) w))
     = map (\<lambda>t. if id' t = i then t\<lparr>title := X\<rparr> else t) (toasts (memoryState w))"
    by (simp add: dispatch_memoryState reducer_state spread_def only_id_def cong: if_cong)
  have r: "list_all2
          (\<lambda>r r'. if id' (objects h r) = i
                   then next_ref h \<le> r'
                        \<and> objects (snd (reducer_ref refs (UPDATE_ref ?p) h)) r'
                            = (objects h r)\<lparr>title := X\<rparr>
                   else r' = r)
          refs (fst (reducer_ref refs (UPDATE_ref ?p) h))"
    if ok: "\<forall>r\<in>set refs. r < next_ref h"
  proof -
    have "list_all2
          (\<lambda>r r'. if id' (objects h r) = i
                   then next_ref h \<le> r'
                        \<and> objects (snd (map_ref (\<lambda>t. id' t = i) (\<lambda>t. spread t ?p) refs h)) r'
                            = spread (objects h r) ?p
                   else r' = r)
          refs (fst (map_ref (\<lambda>t. id' t = i) (\<lambda>t. spread t ?p) refs h))"
      by (rule map_ref_rel [OF ok])
    then have "list_all2
          (\<lambda>r r'. if id' (objects h r) = i
                   then next_ref h \<le> r'
                        \<and> objects (snd (map_ref (\<lambda>t. id' t = i) (\<lambda>t. spread t ?p) refs h)) r'
                            = (objects h r)\<lparr>title := X\<rparr>
                   else r' = r)
          refs (fst (map_ref (\<lambda>t. id' t = i) (\<lambda>t. spread t ?p) refs h))"
      by (rule list_all2_mono) (auto simp: sp split: if_splits)
    moreover have "p_id ?p = i" by (simp add: only_id_def)
    ultimately show ?thesis by (simp only: reducer_ref.simps)
  qed
  have f: "\<forall>r<next_ref h. objects (snd (reducer_ref refs (UPDATE_ref ?p) h)) r = objects h r"
    using reducer_ref_frame [of h refs "UPDATE_ref ?p"] by blast
  have l: "map (objects (snd (reducer_ref refs (UPDATE_ref ?p) h)))
              (fst (reducer_ref refs (UPDATE_ref ?p) h))
            = toasts (fst (reducer \<lparr>toasts = map (objects h) refs\<rparr> (UPDATE_TOAST ?p) w))"
    if ok: "\<forall>r\<in>set refs. r < next_ref h"
    using reducer_ref_refines [OF ok, of "UPDATE_ref ?p" w] by (simp only: action_of.simps)
  from v r f l show ?thesis by blast
qed

text \<open>
  C7 on the objects \<open>"1"\<close> at address 0 and \<open>"2"\<close> at address 1: the update of \<open>"1"\<close>
  gives the references 2 and 1, a new object at 2 with the title, and leaves the objects
  at 0 and 1 as they were.
\<close>

theorem update_title_only_witness:
  "0 < next_ref \<lparr>objects = (\<lambda>r. blank)(0 := blank\<lparr>id' := ''1''\<rparr>, 1 := blank\<lparr>id' := ''2''\<rparr>),
                 next_ref = 2\<rparr>
   \<and> 1 < next_ref \<lparr>objects = (\<lambda>r. blank)(0 := blank\<lparr>id' := ''1''\<rparr>, 1 := blank\<lparr>id' := ''2''\<rparr>),
                 next_ref = 2\<rparr>
   \<and> fst (reducer_ref [0, 1] (UPDATE_ref ((only_id ''1'')\<lparr>p_title := Some (Some ())\<rparr>))
        \<lparr>objects = (\<lambda>r. blank)(0 := blank\<lparr>id' := ''1''\<rparr>, 1 := blank\<lparr>id' := ''2''\<rparr>),
          next_ref = 2\<rparr>) = [2, 1]
   \<and> map (objects (snd (reducer_ref [0, 1] (UPDATE_ref ((only_id ''1'')\<lparr>p_title := Some (Some ())\<rparr>))
        \<lparr>objects = (\<lambda>r. blank)(0 := blank\<lparr>id' := ''1''\<rparr>, 1 := blank\<lparr>id' := ''2''\<rparr>),
          next_ref = 2\<rparr>))) [0, 1, 2]
       = [blank\<lparr>id' := ''1''\<rparr>, blank\<lparr>id' := ''2''\<rparr>, blank\<lparr>id' := ''1'', title := Some ()\<rparr>]"
  using update_title_only [where i = "''1''" and X = "Some ()" and w = "initial :: unit world"
      and refs = "[0, 1]" and h =
      "\<lparr>objects = (\<lambda>r. blank)(0 := blank\<lparr>id' := ''1''\<rparr>, 1 := blank\<lparr>id' := ''2''\<rparr>),
        next_ref = 2\<rparr>"]
  by (simp add: alloc_def spread_def only_id_def blank_def Let_def)

text \<open>
  C8: a second \<open>DISMISS_TOAST\<close> with the same id (or, again, with none) leaves the
  stored state as the first one left it.
\<close>

theorem dismiss_idempotent:
  "memoryState (dispatch (DISMISS_TOAST i) (dispatch (DISMISS_TOAST i) w))
   = memoryState (dispatch (DISMISS_TOAST i) w)"
  by (simp add: dispatch_memoryState reducer_state comp_def cong: if_cong)

subsection \<open>Generated ids\<close>

lemma digit_char_inj: "a < 10 \<Longrightarrow> b < 10 \<Longrightarrow> digit_char a = digit_char b \<Longrightarrow> a = b"
proof -
  assume a: "a < 10" and b: "b < 10" and e: "digit_char a = digit_char b"
  have d: "distinct ''0123456789''" by simp
  have l: "length ''0123456789'' = 10" by simp
  from e have "''0123456789'' ! a = ''0123456789'' ! b" by (simp only: digit_char_def)
  with d a b l show "a = b" by (simp only: nth_eq_iff_index_eq)
qed

lemma toString_nonempty: "toString n \<noteq> []"
  by (subst toString.simps) simp

lemma toString_inj: "toString a = toString b \<Longrightarrow> a = b"
proof (induction a arbitrary: b rule: toString.induct)
  case (1 n)
  show ?case
  proof (cases "n < 10")
    case True
    then have sn: "toString n = [digit_char n]" by (subst toString.simps) simp
    show ?thesis
    proof (cases "b < 10")
      case bs: True
      then have "toString b = [digit_char b]" by (subst toString.simps) simp
      with sn "1.prems" have "digit_char n = digit_char b" by simp
      with True bs show ?thesis by (rule digit_char_inj)
    next
      case False
      then have "toString b = toString (b div 10) @ [digit_char (b mod 10)]"
        by (subst toString.simps) simp
      with sn "1.prems" have "toString (b div 10) = []" by simp
      then show ?thesis by (simp add: toString_nonempty)
    qed
  next
    case False
    then have sn: "toString n = toString (n div 10) @ [digit_char (n mod 10)]"
      by (subst toString.simps) simp
    show ?thesis
    proof (cases "b < 10")
      case True
      then have "toString b = [digit_char b]" by (subst toString.simps) simp
      with sn "1.prems" have "toString (n div 10) = []" by simp
      then show ?thesis by (simp add: toString_nonempty)
    next
      case bl: False
      then have "toString b = toString (b div 10) @ [digit_char (b mod 10)]"
        by (subst toString.simps) simp
      with sn "1.prems" have e1: "toString (n div 10) = toString (b div 10)"
        and e2: "digit_char (n mod 10) = digit_char (b mod 10)" by simp_all
      from "1.IH" [OF False e1] have q: "n div 10 = b div 10" .
      have "n mod 10 = b mod 10" by (rule digit_char_inj [OF _ _ e2]) simp_all
      with q show ?thesis by (metis div_mult_mod_eq)
    qed
  qed
qed

lemma genId_result:
  "fst (genId w) = toString ((count w + 1) mod MAX_SAFE_INTEGER)"
  "count (snd (genId w)) = (count w + 1) mod MAX_SAFE_INTEGER"
  by (simp_all add: genId_def Let_def)

lemma step_mod: "((c + 1) mod M + Suc k) mod M = (c + Suc (Suc k)) mod (M::nat)"
proof -
  have "((c + 1) mod M + Suc k) mod M = ((c + 1) + Suc k) mod M"
    by (rule mod_add_left_eq)
  also have "(c + 1) + Suc k = c + Suc (Suc k)"
    by simp
  finally show ?thesis .
qed

lemma genIds_from:
  "fst (genIds n w) = map (\<lambda>k. toString ((count w + Suc k) mod MAX_SAFE_INTEGER)) [0..<n]"
proof (induction n arbitrary: w)
  case 0
  show ?case by simp
next
  case (Suc n)
  have "fst (genIds (Suc n) w) = fst (genId w) # fst (genIds n (snd (genId w)))"
    by (simp add: case_prod_beta Let_def)
  also have "\<dots> = toString ((count w + 1) mod MAX_SAFE_INTEGER)
      # map (\<lambda>k. toString (((count w + 1) mod MAX_SAFE_INTEGER + Suc k) mod MAX_SAFE_INTEGER)) [0..<n]"
    by (simp only: Suc.IH genId_result)
  also have "\<dots> = toString ((count w + 1) mod MAX_SAFE_INTEGER)
      # map (\<lambda>k. toString ((count w + Suc (Suc k)) mod MAX_SAFE_INTEGER)) [0..<n]"
    by (simp only: step_mod)
  also have "\<dots> = map (\<lambda>k. toString ((count w + Suc k) mod MAX_SAFE_INTEGER)) (0 # map Suc [0..<n])"
    by (simp add: comp_def)
  also have "0 # map Suc [0..<n] = [0..<Suc n]"
    by (simp add: upt_conv_Cons map_Suc_upt del: upt_Suc)
  finally show ?case .
qed

text \<open>
  C9: \<open>genId\<close> returns the decimal string of \<open>(count + 1) mod MAX_SAFE_INTEGER\<close> and
  stores that number; from the counter 0 of the freshly loaded module the first \<open>n\<close>
  ids, for \<open>n\<close> up to \<open>MAX_SAFE_INTEGER - 1\<close>, are the strings of \<open>1, 2, ..., n\<close> in
  this order, and no two of them are equal.
\<close>

theorem genId_ids:
  "fst (genId w) = toString ((count w + 1) mod MAX_SAFE_INTEGER)
   \<and> count (snd (genId w)) = (count w + 1) mod MAX_SAFE_INTEGER
   \<and> (count w = 0 \<and> n \<le> MAX_SAFE_INTEGER - 1 \<longrightarrow>
        fst (genIds n w) = map (\<lambda>k. toString (Suc k)) [0..<n]
        \<and> distinct (fst (genIds n w)))"
proof -
  have ids: "fst (genIds n w) = map (\<lambda>k. toString (Suc k)) [0..<n]"
    if "count w = 0" and "n \<le> MAX_SAFE_INTEGER - 1"
  proof -
    have "map (\<lambda>k. toString ((count w + Suc k) mod MAX_SAFE_INTEGER)) [0..<n]
          = map (\<lambda>k. toString (Suc k)) [0..<n]"
      using that by (intro map_cong refl) simp
    then show ?thesis by (simp only: genIds_from)
  qed
  have "inj toString"
    by (rule injI) (rule toString_inj)
  then have "distinct (map (\<lambda>k. toString (Suc k)) [0..<n])"
    by (auto simp: distinct_map inj_on_def dest: toString_inj)
  with ids show ?thesis
    by (simp add: genId_result)
qed

text \<open>C9 at the first three ids of the freshly loaded module.\<close>

theorem genId_ids_witness:
  "count (initial :: unit world) = 0 \<and> 3 \<le> MAX_SAFE_INTEGER - 1
   \<and> fst (genIds 3 (initial :: unit world)) = [''1'', ''2'', ''3'']
   \<and> distinct (fst (genIds 3 (initial :: unit world)))"
proof -
  have h: "count (initial :: unit world) = 0 \<and> 3 \<le> MAX_SAFE_INTEGER - 1"
    by (simp add: initial_def MAX_SAFE_INTEGER_def)
  with genId_ids [of "initial :: unit world" 3]
  have g: "fst (genIds 3 (initial :: unit world)) = map (\<lambda>k. toString (Suc k)) [0..<3]"
    and d: "distinct (fst (genIds 3 (initial :: unit world)))"
    by blast+
  have "map (\<lambda>k. toString (Suc k)) [0..<3] = [''1'', ''2'', ''3'']"
    by (simp add: numeral_3_eq_3 toString.simps digit_char_def)
  with g h d show ?thesis by simp
qed

subsection \<open>Persistent toasts\<close>

lemma ran_upd_None: "x \<in> ran (m(h := None)) \<Longrightarrow> x \<in> ran m"
  by (auto simp: ran_def split: if_splits)

lemma fire_keeps:
  assumes "i \<in> id' ` set (toasts (memoryState w))" and "i \<notin> snd ` ran (pending w)"
  shows "i \<in> id' ` set (toasts (memoryState (fire h w))) \<and> i \<notin> snd ` ran (pending (fire h w))"
proof (cases "pending w h")
  case None
  with assms show ?thesis by (simp add: fire_def)
next
  case (Some e)
  obtain d tid where e: "e = (d, tid)" by (cases e)
  with Some have "(d, tid) \<in> ran (pending w)" by (auto simp: ran_def)
  with assms(2) have ne: "tid \<noteq> i" by force
  have m: "toasts (memoryState (fire h w)) = filter (\<lambda>t. id' t \<noteq> tid) (toasts (memoryState w))"
    using Some e by (simp add: fire_def dispatch_memoryState reducer_state)
  have p: "pending (fire h w) = (pending w)(h := None)"
    using Some e by (simp add: fire_def dispatch_timers)
  from assms(1) ne have "i \<in> id' ` set (toasts (memoryState (fire h w)))"
    unfolding m by auto
  moreover from assms(2) have "i \<notin> snd ` ran (pending (fire h w))"
    unfolding p by (auto dest: ran_upd_None)
  ultimately show ?thesis ..
qed

lemma fold_fire_keeps:
  "i \<in> id' ` set (toasts (memoryState w)) \<Longrightarrow> i \<notin> snd ` ran (pending w) \<Longrightarrow>
   i \<in> id' ` set (toasts (memoryState (fold fire hs w)))"
proof (induction hs arbitrary: w)
  case Nil
  then show ?case by simp
next
  case (Cons h hs)
  from fire_keeps [OF Cons.prems, of h] Cons.IH [of "fire h w"] show ?case by simp
qed

lemma toast_result:
  "fst (toast p w) = toString ((count w + 1) mod MAX_SAFE_INTEGER)"
  by (simp add: toast_def genId_def Let_def case_prod_beta)

lemma toast_added: "fst (toast p w) \<in> id' ` set (toasts (memoryState (snd (toast p w))))"
  by (simp add: toast_def genId_def Let_def case_prod_beta dispatch_memoryState TOAST_LIMIT_def)

lemma toast_persistent_world:
  assumes "duration p = Some 0"
  shows "toastTimeouts (snd (toast p w)) = toastTimeouts w"
    and "pending (snd (toast p w)) = pending w"
    and "next_handle (snd (toast p w)) = next_handle w"
  using assms
  by (simp_all add: toast_def genId_def Let_def case_prod_beta dispatch_timers)

lemma fire_removes:
  assumes "map_option snd (pending w h) = Some i"
  shows "i \<notin> id' ` set (toasts (memoryState (fire h w)))"
proof -
  from assms obtain d where "pending w h = Some (d, i)" by (cases "pending w h") auto
  then have "toasts (memoryState (fire h w)) = filter (\<lambda>t. id' t \<noteq> i) (toasts (memoryState w))"
    by (simp add: fire_def dispatch_memoryState reducer_state)
  then show ?thesis by auto
qed

lemma removeFromRemoveQueue_frame [simp]:
  "memoryState (removeFromRemoveQueue i w) = memoryState w"
  "next_handle (removeFromRemoveQueue i w) = next_handle w"
  by (simp_all add: removeFromRemoveQueue_def split: option.splits)

lemma toast_dismiss_arms:
  assumes "i \<noteq> []"
  shows "map_of (toastTimeouts (toast_dismiss i w)) i = Some (next_handle w)"
    and "map_option snd (pending (toast_dismiss i w) (next_handle w)) = Some i"
  using assms
  by (simp_all add: toast_dismiss_def dispatch_timers Let_def addToRemoveQueue_registry
      update_conv' pending_addToRemoveQueue)

lemma dismiss_all_arms:
  assumes "registry_ok w" and "i \<in> id' ` set (toasts (memoryState w))"
  shows "\<exists>h. map_of (toastTimeouts (dismiss None w)) i = Some h
           \<and> map_option snd (pending (dismiss None w) h) = Some i"
proof -
  have "armed_all (id' ` set (toasts (memoryState w)))
          (snd (reducer (memoryState w) (DISMISS_TOAST None) w))"
    using assms(1) by (intro reducer_dismiss_all(2)) simp_all
  with assms(2) show ?thesis
    unfolding armed_all_def by (simp add: dismiss_def dispatch_timers) blast
qed

lemma toast_id_nonempty: "fst (toast p w) \<noteq> []"
  by (simp add: toast_result toString_nonempty)

text \<open>
  C5, as stated, fails: a dismiss does arm a removal timer for a toast created with
  duration 0. The first toast of the freshly loaded module, created with duration 0,
  gets the id \<open>"1"\<close>; the \<open>dismiss\<close> of its handle arms a timer for \<open>"1"\<close> with the
  default 5000 ms, the dismiss of all toasts arms one with its own 0 ms, and when the
  timer fires the toast is gone.
\<close>

theorem persistent_toast_dismiss_arms_timer:
  "fst (toast (blank\<lparr>duration := Some 0\<rparr>) (initial :: unit world)) = ''1''
   \<and> pending (toast_dismiss ''1'' (snd (toast (blank\<lparr>duration := Some 0\<rparr>) (initial :: unit world)))) 1
       = Some (5000, ''1'')
   \<and> pending (dismiss None (snd (toast (blank\<lparr>duration := Some 0\<rparr>) (initial :: unit world)))) 1
       = Some (0, ''1'')
   \<and> toasts (memoryState (fire 1
        (toast_dismiss ''1'' (snd (toast (blank\<lparr>duration := Some 0\<rparr>) (initial :: unit world))))))
       = []"
  by (simp add: toast_def genId_def toast_dismiss_def dismiss_def removeFromRemoveQueue_def fire_def
      dispatch_def addToRemoveQueue_def setTimeout_def Let_def initial_def blank_def
      MAX_SAFE_INTEGER_def TOAST_LIMIT_def TOAST_REMOVE_DELAY_def toString.simps digit_char_def)

text \<open>
  C5, amended: creating a toast with duration exactly 0 arms no timer (the registry and
  the host's timers are as before the call), and, when no timer for its id was pending
  already, no sequence of firing timers removes it from the store. A dismiss does arm a
  removal timer for it: the \<open>dismiss\<close> of its handle registers a newly armed timer for
  its id, the dismiss of all toasts (on a registry of issued handles) leaves a registered
  timer armed for its id, and when that timer fires the toast is removed.
\<close>

theorem persistent_toast_stays:
  assumes "duration p = Some 0" and "toast p w = (i, w1)" and "i \<notin> snd ` ran (pending w)"
  shows "toastTimeouts w1 = toastTimeouts w
       \<and> pending w1 = pending w
       \<and> i \<in> id' ` set (toasts (memoryState (fold fire hs w1)))
       \<and> map_of (toastTimeouts (toast_dismiss i w1)) i = Some (next_handle w)
       \<and> map_option snd (pending (toast_dismiss i w1) (next_handle w)) = Some i
       \<and> i \<notin> id' ` set (toasts (memoryState (fire (next_handle w) (toast_dismiss i w1))))
       \<and> (registry_ok w \<longrightarrow>
            (\<exists>h. map_of (toastTimeouts (dismiss None w1)) i = Some h
                \<and> map_option snd (pending (dismiss None w1) h) = Some i
                \<and> i \<notin> id' ` set (toasts (memoryState (fire h (dismiss None w1))))))"
proof -
  from assms(2) have i: "i = fst (toast p w)" and w1: "w1 = snd (toast p w)" by simp_all
  note same = toast_persistent_world [OF assms(1), of w, folded w1]
  have ne: "i \<noteq> []" unfolding i by (rule toast_id_nonempty)
  have added: "i \<in> id' ` set (toasts (memoryState w1))"
    unfolding i w1 by (rule toast_added)
  have "i \<notin> snd ` ran (pending w1)"
    using assms(3) by (simp add: same)
  with added have stays: "i \<in> id' ` set (toasts (memoryState (fold fire hs w1)))"
    by (rule fold_fire_keeps)
  have d1: "map_of (toastTimeouts (toast_dismiss i w1)) i = Some (next_handle w)"
    and d2: "map_option snd (pending (toast_dismiss i w1) (next_handle w)) = Some i"
    using toast_dismiss_arms [OF ne, of w1] by (simp_all add: same)
  from d2 have d3: "i \<notin> id' ` set (toasts (memoryState (fire (next_handle w) (toast_dismiss i w1))))"
    by (rule fire_removes)
  have g: "\<exists>h. map_of (toastTimeouts (dismiss None w1)) i = Some h
                \<and> map_option snd (pending (dismiss None w1) h) = Some i
                \<and> i \<notin> id' ` set (toasts (memoryState (fire h (dismiss None w1))))"
    if ok: "registry_ok w"
  proof -
    from ok have "registry_ok w1" by (simp add: registry_ok_def same)
    from dismiss_all_arms [OF this added] obtain h where
      h: "map_of (toastTimeouts (dismiss None w1)) i = Some h"
         "map_option snd (pending (dismiss None w1) h) = Some i" by blast
    from fire_removes [OF h(2)] h show ?thesis by blast
  qed
  from same stays d1 d2 d3 g show ?thesis by blast
qed


text \<open>
  C5 on the module after \<open>toast({})\<close>: the toast created with duration 0 is \<open>"2"\<close>; when
  the timer of \<open>"1"\<close> fires, \<open>"2"\<close> stays; after a dismiss, the timer 2 is armed for
  \<open>"2"\<close>, and when it fires \<open>"2"\<close> is gone.
\<close>

theorem persistent_toast_stays_witness:
  "duration (blank\<lparr>duration := Some 0\<rparr> :: unit ToasterToast) = Some 0
   \<and> fst (toast (blank\<lparr>duration := Some 0\<rparr>) one_toast) = ''2''
   \<and> ''2'' \<notin> snd ` ran (pending one_toast)
   \<and> registry_ok one_toast
   \<and> map_option snd (pending one_toast 1) = Some ''1''
   \<and> map id' (toasts (memoryState two_toasts)) = [''2'', ''1'']
   \<and> map id' (toasts (memoryState (fold fire [1] two_toasts))) = [''2'']
   \<and> map_of (toastTimeouts (toast_dismiss ''2'' two_toasts)) ''2'' = Some 2
   \<and> map id' (toasts (memoryState (fire 2 (toast_dismiss ''2'' two_toasts)))) = [''1'']
   \<and> map_of (toastTimeouts (dismiss None two_toasts)) ''2'' = Some 2
   \<and> map id' (toasts (memoryState (fire 2 (dismiss None two_toasts)))) = [''1'']"
  using persistent_toast_stays [where p = "blank\<lparr>duration := Some 0\<rparr>" and w = one_toast
      and i = "''2''" and ?w1.0 = two_toasts and hs = "[1]"]
  unfolding two_toasts_world snd_conv fst_conv
  unfolding one_toast_world
  by (simp add: fire_def toast_dismiss_def dismiss_def removeFromRemoveQueue_def dispatch_def
      addToRemoveQueue_def setTimeout_def clearTimeout_def registry_ok_def Let_def blank_def)

end
